theory Spec2Isabelle
  imports Main "HOL-Library.Word" "HOL-Library.Multiset"
begin

section \<open>Data model of binary\_decision\_tree.cpp\<close>

text \<open>
  The C++ type \<open>int\<close> of interval bounds, thresholds and point coordinates is a 32-bit
  two's complement integer: a \<open>32 word\<close>, compared with the signed orders \<open>\<le>s\<close> and
  \<open><s\<close>, and added with the wrapping \<open>+\<close> of words. The only arithmetic on such a
  value is \<open>right + 1\<close> in \<open>BuildTree_\<close>; at the largest \<open>int\<close> this sum overflows,
  which C++ leaves undefined and a two's complement machine wraps to the least \<open>int\<close>.
  Dimension indices, \<open>dimension_\<close> and the counters of the build are small loop
  counters and sizes: they are \<open>int\<close> or \<open>nat\<close>.
\<close>

type_synonym int32 = "32 word"

record Interval =
  left :: int32
  right :: int32

definition Contains :: "Interval \<Rightarrow> int32 \<Rightarrow> bool" where
  "Contains iv x = (left iv \<le>s x \<and> x \<le>s right iv)"

text \<open>True if the interval is to the left of the point.\<close>

definition ToTheLeft :: "Interval \<Rightarrow> int32 \<Rightarrow> bool" where
  "ToTheLeft iv x = (right iv <s x)"

text \<open>True if the interval is to the right of the point.\<close>

definition ToTheRight :: "Interval \<Rightarrow> int32 \<Rightarrow> bool" where
  "ToTheRight iv x = (x <s left iv)"

record Decision =
  dimension_index :: int
  ref_value :: int32

text \<open>The default constructor \<open>Decision()\<close>, also written \<open>Decision(-1, -1)\<close>.\<close>

definition no_decision :: Decision where
  "no_decision = \<lparr>dimension_index = - 1, ref_value = - 1\<rparr>"

text \<open>
  A failed \<open>assert\<close> aborts the program, and so does reading through the null \<open>root_\<close>:
  both are error values of the model.
\<close>

datatype error = AssertionFailed | NullPointer

definition IsValid :: "Decision \<Rightarrow> error + bool" where
  "IsValid d =
     (if \<not> dimension_index d \<ge> - 1 then Inl AssertionFailed
      else Inr (dimension_index d \<ge> 0))"

text \<open>
  A node owns its bucket \<open>areas_to_check\<close>, its children (\<open>None\<close> is \<open>nullptr\<close>) and its
  decision. The children are the fields \<open>left\<close> and \<open>right\<close> of the source, renamed since
  the interval already has fields of these names.
\<close>

datatype DecisionTreeNode = DecisionTreeNode
  (areas_to_check: "Interval list list")
  (left_child: "DecisionTreeNode option")
  (right_child: "DecisionTreeNode option")
  (decision: Decision)

text \<open>
  The inner loop of \<open>CurrentNodeContainsPoint\<close> and of \<open>BruteContains\<close>: \<open>area[i]\<close> is
  read for every \<open>i < point.size()\<close>, stopping at the first coordinate outside. The
  areas of a tree all have \<open>dimension_\<close> intervals (\<open>AddArea\<close> asserts it) and so has the
  point (\<open>ContainsPoint\<close> asserts it), so the reads are in range.
\<close>

definition area_contains_point :: "Interval list \<Rightarrow> int32 list \<Rightarrow> bool" where
  "area_contains_point area point =
     list_all (\<lambda>i. Contains (area ! i) (point ! i)) [0..<length point]"

definition CurrentNodeContainsPoint :: "Interval list list \<Rightarrow> int32 list \<Rightarrow> bool" where
  "CurrentNodeContainsPoint areas_chk point =
     list_ex (\<lambda>area. area_contains_point area point) areas_chk"

definition BruteContains :: "int32 list \<Rightarrow> Interval list list \<Rightarrow> bool" where
  "BruteContains point areas_all =
     list_ex (\<lambda>area. area_contains_point area point) areas_all"

fun FindPoint :: "DecisionTreeNode \<Rightarrow> int32 list \<Rightarrow> error + bool" where
  "FindPoint (DecisionTreeNode chk l r dec) point =
     (if CurrentNodeContainsPoint chk point then Inr True
      else (case IsValid dec of
          Inl e \<Rightarrow> Inl e
        | Inr valid \<Rightarrow>
            if \<not> valid then
              (if l = None \<and> r = None then Inr False else Inl AssertionFailed)
            else if point ! nat (dimension_index dec) <s ref_value dec then
              (case l of Some n \<Rightarrow> FindPoint n point | None \<Rightarrow> Inr False)
            else if ref_value dec <s point ! nat (dimension_index dec) then
              (case r of Some n \<Rightarrow> FindPoint n point | None \<Rightarrow> Inr False)
            else Inr False))"

fun SumAreasToCheckSizes :: "DecisionTreeNode \<Rightarrow> nat" where
  "SumAreasToCheckSizes (DecisionTreeNode chk l r dec) =
     length chk
     + (case l of Some n \<Rightarrow> SumAreasToCheckSizes n | None \<Rightarrow> 0)
     + (case r of Some n \<Rightarrow> SumAreasToCheckSizes n | None \<Rightarrow> 0)"

section \<open>Building the tree\<close>

text \<open>
  The counting loop of \<open>BuildTree_\<close> over \<open>all_areas\<close>, with the accumulator
  \<open>(cut_through_count, left_count, right_count)\<close>; the last branch is \<open>assert(false)\<close>.
\<close>

fun count_areas ::
  "nat \<Rightarrow> int32 \<Rightarrow> Interval list list \<Rightarrow> int \<times> int \<times> int \<Rightarrow> error + (int \<times> int \<times> int)" where
  "count_areas d v [] acc = Inr acc"
| "count_areas d v (area # rest) (cut_through_count, left_count, right_count) =
     (if Contains (area ! d) v then
        count_areas d v rest (cut_through_count + 1, left_count, right_count)
      else if ToTheLeft (area ! d) v then
        count_areas d v rest (cut_through_count, left_count + 1, right_count)
      else if ToTheRight (area ! d) v then
        count_areas d v rest (cut_through_count, left_count, right_count + 1)
      else Inl AssertionFailed)"

text \<open>
  One round of the loop over the dimensions, and the loop. \<open>std::sort\<close> orders
  \<open>all_areas\<close> in place by the right bound at the dimension; the order it leaves between
  areas of equal right bound is unspecified, and \<open>sort_key\<close> is one such order. Only the
  right bound at the median index is read from the sorted vector, and the counts do not
  depend on the order (see \<open>median_right_any_sort\<close> and \<open>count_areas_mset\<close> below).
\<close>

definition candidate_decision :: "nat \<Rightarrow> Interval list list \<Rightarrow> Decision" where
  "candidate_decision d all_areas =
     (let median_index = nat ((int (length all_areas) - 1) div 2)
      in \<lparr>dimension_index = int d,
          ref_value = right (all_areas ! median_index ! d) + 1\<rparr>)"

fun best_decision_loop ::
  "nat list \<Rightarrow> Decision \<times> int \<times> Interval list list
     \<Rightarrow> error + (Decision \<times> int \<times> Interval list list)" where
  "best_decision_loop [] st = Inr st"
| "best_decision_loop (d # ds) (best_decision, best_cut_through_count, all_areas) =
     (let sorted_areas = sort_key (\<lambda>a. sint (right (a ! d))) all_areas;
          dec = candidate_decision d sorted_areas
      in case count_areas d (ref_value dec) sorted_areas (0, 0, 0) of
           Inl e \<Rightarrow> Inl e
         | Inr (cut_through_count, left_count, right_count) \<Rightarrow>
             if dimension_index best_decision = - 1
                \<or> cut_through_count < best_cut_through_count
             then best_decision_loop ds (dec, cut_through_count, sorted_areas)
             else best_decision_loop ds
                    (best_decision, best_cut_through_count, sorted_areas))"

text \<open>
  The partition loop over \<open>areas_to_add\<close>, with the accumulator
  \<open>(areas_to_check, push_left_areas, push_right_areas)\<close>; \<open>push_back\<close> appends.
\<close>

fun partition_areas ::
  "nat \<Rightarrow> int32 \<Rightarrow> Interval list list
     \<Rightarrow> Interval list list \<times> Interval list list \<times> Interval list list
     \<Rightarrow> error + (Interval list list \<times> Interval list list \<times> Interval list list)" where
  "partition_areas d v [] acc = Inr acc"
| "partition_areas d v (area # rest) (chk, push_left_areas, push_right_areas) =
     (if Contains (area ! d) v then
        partition_areas d v rest (chk @ [area], push_left_areas, push_right_areas)
      else if ToTheLeft (area ! d) v then
        partition_areas d v rest (chk, push_left_areas @ [area], push_right_areas)
      else if ToTheRight (area ! d) v then
        partition_areas d v rest (chk, push_left_areas, push_right_areas @ [area])
      else Inl AssertionFailed)"

function BuildTree :: "int \<Rightarrow> Interval list list \<Rightarrow> error + DecisionTreeNode" where
  "BuildTree dim areas_to_add =
     (if \<not> length areas_to_add > 0 then Inl AssertionFailed
      else if length areas_to_add = 1 then
        Inr (DecisionTreeNode areas_to_add None None no_decision)
      else
        (case best_decision_loop [0..<nat dim] (no_decision, - 1, areas_to_add) of
           Inl e \<Rightarrow> Inl e
         | Inr (best_decision, best_cut_through_count, all_areas) \<Rightarrow>
             if \<not> dimension_index best_decision \<noteq> - 1 then Inl AssertionFailed
             else
               (case partition_areas (nat (dimension_index best_decision))
                       (ref_value best_decision) areas_to_add ([], [], []) of
                  Inl e \<Rightarrow> Inl e
                | Inr (chk, push_left_areas, push_right_areas) \<Rightarrow>
                    if length push_left_areas = length areas_to_add
                       \<or> length push_right_areas = length areas_to_add
                    then Inr (DecisionTreeNode areas_to_add None None no_decision)
                    else
                      (case (if push_left_areas \<noteq> []
                             then map_sum id Some (BuildTree dim push_left_areas)
                             else Inr None) of
                         Inl e \<Rightarrow> Inl e
                       | Inr l \<Rightarrow>
                           (case (if push_right_areas \<noteq> []
                                  then map_sum id Some (BuildTree dim push_right_areas)
                                  else Inr None) of
                              Inl e \<Rightarrow> Inl e
                            | Inr r \<Rightarrow>
                                Inr (DecisionTreeNode chk l r best_decision))))))"
  by pat_completeness auto
termination
proof -
  have len: "length c' + length l' + length r' = length c + length l + length r + length xs"
    if "partition_areas d v xs (c, l, r) = Inr (c', l', r')"
    for d v xs c l r c' l' r'
    using that by (induction xs arbitrary: c l r) (auto split: if_splits)
  have bound: "length l' \<le> length xs \<and> length r' \<le> length xs"
    if "partition_areas d v xs ([], [], []) = Inr (c', l', r')"
    for d v xs c' l' r'
    using len [OF that] by simp
  show ?thesis
  proof (relation "measure (\<lambda>(dim, areas_to_add). length areas_to_add)", goal_cases)
    case 1
    show ?case by simp
  next
    case (2 dim areas_to_add x2 best rest cut all_areas x2a chk rest2 pl pr)
    then show ?case by (auto dest!: bound)
  next
    case (3 dim areas_to_add x2 best rest cut all_areas x2a chk rest2 pl pr x2b)
    then show ?case by (auto dest!: bound)
  qed
qed

declare BuildTree.simps [simp del]

section \<open>The index\<close>

text \<open>
  The fields \<open>dimension_\<close>, \<open>dirty_\<close>, \<open>root_\<close> and \<open>areas_\<close> of the class, without
  the trailing underscore (which a constant of the logic cannot have; \<open>BuildTree\<close> above
  is \<open>BuildTree_\<close> for the same reason).
\<close>

record DecisionTree =
  dimension :: int
  dirty :: bool
  root :: "DecisionTreeNode option"
  areas :: "Interval list list"

definition new_DecisionTree :: "int \<Rightarrow> DecisionTree" where
  "new_DecisionTree dim = \<lparr>dimension = dim, dirty = True, root = None, areas = []\<rparr>"

definition AddArea :: "DecisionTree \<Rightarrow> Interval list \<Rightarrow> error + DecisionTree" where
  "AddArea t area =
     (if \<not> int (length area) = dimension t then Inl AssertionFailed
      else Inr (t\<lparr>areas := areas t @ [area], dirty := True\<rparr>))"

text \<open>\<open>FreeTree\<close> only releases memory; the new root replaces the old one.\<close>

definition RebuildTree :: "DecisionTree \<Rightarrow> error + DecisionTree" where
  "RebuildTree t =
     (case BuildTree (dimension t) (areas t) of
        Inl e \<Rightarrow> Inl e
      | Inr n \<Rightarrow> Inr (t\<lparr>root := Some n\<rparr>))"

definition RebuildTreeIfDirty :: "DecisionTree \<Rightarrow> error + DecisionTree" where
  "RebuildTreeIfDirty t =
     (if dirty t then
        (case RebuildTree t of
           Inl e \<Rightarrow> Inl e
         | Inr t' \<Rightarrow> Inr (t'\<lparr>dirty := False\<rparr>))
      else Inr t)"

definition ContainsPoint :: "DecisionTree \<Rightarrow> int32 list \<Rightarrow> error + (bool \<times> DecisionTree)" where
  "ContainsPoint t point =
     (if \<not> int (length point) = dimension t then Inl AssertionFailed
      else
        (case RebuildTreeIfDirty t of
           Inl e \<Rightarrow> Inl e
         | Inr t' \<Rightarrow>
             (case root t' of
                None \<Rightarrow> Inl NullPointer
              | Some n \<Rightarrow>
                  (case FindPoint n point of
                     Inl e \<Rightarrow> Inl e
                   | Inr b \<Rightarrow> Inr (b, t')))))"

text \<open>\<open>DecisionTree::SumAreasToCheckSizes\<close>, which reads through \<open>root_\<close>.\<close>

definition tree_SumAreasToCheckSizes :: "DecisionTree \<Rightarrow> error + nat" where
  "tree_SumAreasToCheckSizes t =
     (case root t of
        None \<Rightarrow> Inl NullPointer
      | Some n \<Rightarrow> Inr (SumAreasToCheckSizes n))"

definition GetAllAreas :: "DecisionTree \<Rightarrow> Interval list list" where
  "GetAllAreas t = areas t"

section \<open>Notions of the specification\<close>

text \<open>
  The ascending sequence of the right bounds at a dimension, the threshold of the
  candidate decision as the specification words it (one plus the lower median of that
  sequence, in the 32-bit arithmetic of the program) and its cut-through count.
\<close>

definition right_bounds_ascending :: "nat \<Rightarrow> Interval list list \<Rightarrow> int32 list" where
  "right_bounds_ascending d areas_in = sort_key sint (map (\<lambda>a. right (a ! d)) areas_in)"

definition spec_threshold :: "nat \<Rightarrow> Interval list list \<Rightarrow> int32" where
  "spec_threshold d areas_in =
     right_bounds_ascending d areas_in ! ((length areas_in - 1) div 2) + 1"

definition spec_cut_through :: "nat \<Rightarrow> Interval list list \<Rightarrow> nat" where
  "spec_cut_through d areas_in =
     length (filter (\<lambda>a. Contains (a ! d) (spec_threshold d areas_in)) areas_in)"

text \<open>The selection made by the loop over the dimensions, on the candidates above.\<close>

fun pick_best ::
  "Interval list list \<Rightarrow> nat list \<Rightarrow> Decision \<times> int \<Rightarrow> Decision \<times> int" where
  "pick_best areas_in [] st = st"
| "pick_best areas_in (d # ds) (b, c) =
     (if dimension_index b = - 1 \<or> int (spec_cut_through d areas_in) < c
      then pick_best areas_in ds
             (\<lparr>dimension_index = int d, ref_value = spec_threshold d areas_in\<rparr>,
              int (spec_cut_through d areas_in))
      else pick_best areas_in ds (b, c))"

text \<open>The decision \<open>best_decision\<close> that \<open>BuildTree_\<close> holds after its loop.\<close>

definition chosen_decision :: "int \<Rightarrow> Interval list list \<Rightarrow> Decision" where
  "chosen_decision dim areas_to_add =
     (case best_decision_loop [0..<nat dim] (no_decision, - 1, areas_to_add) of
        Inl e \<Rightarrow> no_decision
      | Inr (best_decision, best_cut_through_count, all_areas) \<Rightarrow> best_decision)"

text \<open>The three vectors that the partition loop of \<open>BuildTree_\<close> fills.\<close>

definition areas_cut_through :: "nat \<Rightarrow> int32 \<Rightarrow> Interval list list \<Rightarrow> Interval list list" where
  "areas_cut_through d v areas_in = filter (\<lambda>a. Contains (a ! d) v) areas_in"

definition areas_to_left :: "nat \<Rightarrow> int32 \<Rightarrow> Interval list list \<Rightarrow> Interval list list" where
  "areas_to_left d v areas_in =
     filter (\<lambda>a. \<not> Contains (a ! d) v \<and> ToTheLeft (a ! d) v) areas_in"

definition areas_to_right :: "nat \<Rightarrow> int32 \<Rightarrow> Interval list list \<Rightarrow> Interval list list" where
  "areas_to_right d v areas_in =
     filter (\<lambda>a. \<not> Contains (a ! d) v \<and> \<not> ToTheLeft (a ! d) v) areas_in"

text \<open>All the areas stored in the buckets of a subtree.\<close>

fun subtree_areas :: "DecisionTreeNode \<Rightarrow> Interval list list" where
  "subtree_areas (DecisionTreeNode chk l r dec) =
     chk
     @ (case l of Some n \<Rightarrow> subtree_areas n | None \<Rightarrow> [])
     @ (case r of Some n \<Rightarrow> subtree_areas n | None \<Rightarrow> [])"

text \<open>
  The split invariant of a subtree built from the areas \<open>input\<close>: at a node with a valid
  decision, the left subtree lies below the threshold, the right subtree above it, every
  area of the input that contains the threshold is in the node's bucket, and the children
  satisfy the invariant for the areas pushed to them; a node without a valid decision has
  no children.
\<close>

fun split_invariant :: "Interval list list \<Rightarrow> DecisionTreeNode \<Rightarrow> bool" where
  "split_invariant input (DecisionTreeNode chk l r dec) =
     (if IsValid dec = Inr True then
        (let d = nat (dimension_index dec); t = ref_value dec in
           (\<forall>a \<in> set (case l of Some n \<Rightarrow> subtree_areas n | None \<Rightarrow> []).
              right (a ! d) <s t)
         \<and> (\<forall>a \<in> set (case r of Some n \<Rightarrow> subtree_areas n | None \<Rightarrow> []).
              t <s left (a ! d))
         \<and> (\<forall>a \<in> set input. Contains (a ! d) t \<longrightarrow> a \<in> set chk)
         \<and> (case l of Some n \<Rightarrow> split_invariant (areas_to_left d t input) n
             | None \<Rightarrow> True)
         \<and> (case r of Some n \<Rightarrow> split_invariant (areas_to_right d t input) n
             | None \<Rightarrow> True))
      else l = None \<and> r = None)"

text \<open>
  The index is consistent when a clean tree (\<open>dirty_\<close> false) is the tree built from
  the areas inserted so far.
\<close>

definition tree_consistent :: "DecisionTree \<Rightarrow> bool" where
  "tree_consistent t =
     (dirty t
      \<or> (case root t of
            None \<Rightarrow> False
          | Some n \<Rightarrow> BuildTree (dimension t) (areas t) = Inr n))"

text \<open>
  The states of an index that a client can reach: the constructor, then any sequence of
  calls of the public member functions that return (a failed assertion ends the
  program).
\<close>

inductive reachable :: "DecisionTree \<Rightarrow> bool" where
  reachable_new: "reachable (new_DecisionTree dim)"
| reachable_AddArea: "reachable t \<Longrightarrow> AddArea t area = Inr t' \<Longrightarrow> reachable t'"
| reachable_RebuildTree: "reachable t \<Longrightarrow> RebuildTree t = Inr t' \<Longrightarrow> reachable t'"
| reachable_RebuildTreeIfDirty:
    "reachable t \<Longrightarrow> RebuildTreeIfDirty t = Inr t' \<Longrightarrow> reachable t'"
| reachable_ContainsPoint:
    "reachable t \<Longrightarrow> ContainsPoint t p = Inr (b, t') \<Longrightarrow> reachable t'"

text \<open>Scenario 3 of the specification: dimension 1, the areas [0,5] and [6,10].\<close>

definition scenario3_areas :: "Interval list list" where
  "scenario3_areas = [[\<lparr>left = 0, right = 5\<rparr>], [\<lparr>left = 6, right = 10\<rparr>]]"

definition scenario3_index :: DecisionTree where
  "scenario3_index = \<lparr>dimension = 1, dirty = True, root = None, areas = scenario3_areas\<rparr>"

text \<open>Two copies of the area that covers the whole range of \<open>int\<close>, in dimension 1.\<close>

definition full_range :: Interval where
  "full_range = \<lparr>left = - 2147483648, right = 2147483647\<rparr>"

definition full_range_areas :: "Interval list list" where
  "full_range_areas = [[full_range], [full_range]]"

section \<open>Intervals and the iterations of the build\<close>

lemma interval_trichotomy:
  "\<not> ToTheRight iv x \<Longrightarrow> \<not> ToTheLeft iv x \<Longrightarrow> Contains iv x"
  by (auto simp: Contains_def ToTheLeft_def ToTheRight_def word_sle_eq word_sless_alt)

lemma Contains_not_ToTheLeft: "Contains iv x \<Longrightarrow> \<not> ToTheLeft iv x"
  by (auto simp: Contains_def ToTheLeft_def word_sle_eq word_sless_alt)

lemma Contains_not_ToTheRight: "Contains iv x \<Longrightarrow> \<not> ToTheRight iv x"
  by (auto simp: Contains_def ToTheRight_def word_sle_eq word_sless_alt)

lemma count_areas_eq:
  "count_areas d v xs (c, l, r) =
   Inr (c + int (length (filter (\<lambda>a. Contains (a ! d) v) xs)),
        l + int (length (filter (\<lambda>a. \<not> Contains (a ! d) v \<and> ToTheLeft (a ! d) v) xs)),
        r + int (length (filter (\<lambda>a. \<not> Contains (a ! d) v \<and> \<not> ToTheLeft (a ! d) v) xs)))"
  by (induction xs arbitrary: c l r) (auto dest: interval_trichotomy)

lemma partition_areas_eq:
  "partition_areas d v xs (c, l, r) =
   Inr (c @ filter (\<lambda>a. Contains (a ! d) v) xs,
        l @ filter (\<lambda>a. \<not> Contains (a ! d) v \<and> ToTheLeft (a ! d) v) xs,
        r @ filter (\<lambda>a. \<not> Contains (a ! d) v \<and> \<not> ToTheLeft (a ! d) v) xs)"
  by (induction xs arbitrary: c l r) (auto dest: interval_trichotomy)

lemma map_insort_key:
  "map f (insort_key (\<lambda>a. k (f a)) x xs) = insort_key k (f x) (map f xs)"
  by (induction xs) auto

lemma map_sort_key:
  "map f (sort_key (\<lambda>a. k (f a)) xs) = sort_key k (map f xs)"
  by (induction xs) (auto simp: map_insort_key)

lemma map_sort_key_eq_sort: "map k (sort_key k xs) = sort (map k xs)"
  using map_sort_key [of k "\<lambda>x. x" xs] by simp

lemma sort_key_mset_cong:
  assumes "mset xs = mset ys"
  shows "map k (sort_key k xs) = map k (sort_key k ys)"
proof -
  have "mset (sort (map k ys)) = mset (map k xs)"
    using assms by simp
  then have "sort (map k xs) = sort (map k ys)"
    by (rule properties_for_sort) simp
  then show ?thesis
    by (simp add: map_sort_key_eq_sort)
qed

lemma sort_key_sint_mset_cong:
  fixes xs ys :: "int32 list"
  assumes "mset xs = mset ys"
  shows "sort_key sint xs = sort_key sint ys"
proof (rule sort_key_inj_key_eq)
  show "mset xs = mset (sort_key sint ys)" using assms by simp
  show "inj_on sint (set xs)" by (rule inj_onI) (rule signed_word_eqI)
  show "sorted (map sint (sort_key sint ys))" by simp
qed

lemma median_index_nat:
  assumes "0 < n"
  shows "nat ((int n - 1) div 2) = (n - 1) div 2"
proof -
  have "int n - 1 = int (n - 1)" using assms by simp
  then have "(int n - 1) div 2 = int ((n - 1) div 2)"
    by (simp only: zdiv_int of_nat_numeral)
  then show ?thesis by (simp only: nat_int)
qed

lemma candidate_decision_perm:
  assumes "mset xs = mset areas_in" and "areas_in \<noteq> []"
  shows "candidate_decision d (sort_key (\<lambda>a. sint (right (a ! d))) xs) =
         \<lparr>dimension_index = int d, ref_value = spec_threshold d areas_in\<rparr>"
proof -
  let ?s = "sort_key (\<lambda>a. sint (right (a ! d))) xs"
  let ?m = "(length areas_in - 1) div 2"
  have "size (mset xs) = size (mset areas_in)"
    using assms(1) by simp
  then have len: "length xs = length areas_in"
    by simp
  have pos: "0 < length areas_in" using assms(2) by simp
  have ls: "length ?s = length areas_in" using len by simp
  have m: "?m < length ?s" using pos ls by linarith
  have mi: "nat ((int (length ?s) - 1) div 2) = ?m"
    using median_index_nat [OF pos] by (simp only: ls)
  have "map (\<lambda>a. right (a ! d)) ?s = sort_key sint (map (\<lambda>a. right (a ! d)) xs)"
    by (rule map_sort_key)
  also have "\<dots> = right_bounds_ascending d areas_in"
    unfolding right_bounds_ascending_def
    by (rule sort_key_sint_mset_cong) (simp add: assms(1))
  finally have "right_bounds_ascending d areas_in ! ?m = right (?s ! ?m ! d)"
    using m nth_map [of ?m ?s "\<lambda>a. right (a ! d)"] by simp
  then show ?thesis
    by (simp only: candidate_decision_def mi spec_threshold_def Let_def)
qed

lemma length_filter_mset_cong:
  assumes "mset xs = mset ys"
  shows "length (filter P xs) = length (filter P ys)"
proof -
  have "mset (filter P xs) = mset (filter P ys)"
    using assms by simp
  then have "size (mset (filter P xs)) = size (mset (filter P ys))"
    by (rule arg_cong)
  then show ?thesis by (simp only: size_mset)
qed

lemma count_areas_perm:
  assumes "mset xs = mset areas_in"
  shows "\<exists>l r. count_areas d (spec_threshold d areas_in)
                 (sort_key (\<lambda>a. sint (right (a ! d))) xs) (0, 0, 0) =
               Inr (int (spec_cut_through d areas_in), l, r)"
proof -
  have "mset (sort_key (\<lambda>a. sint (right (a ! d))) xs) = mset areas_in"
    using assms by simp
  then have "length (filter (\<lambda>a. Contains (a ! d) (spec_threshold d areas_in))
                  (sort_key (\<lambda>a. sint (right (a ! d))) xs)) = spec_cut_through d areas_in"
    unfolding spec_cut_through_def by (rule length_filter_mset_cong)
  then show ?thesis
    by (simp only: count_areas_eq) simp
qed

text \<open>
  Whatever order \<open>std::sort\<close> leaves between areas of equal right bound, the
  candidate decision and the counts are the same.
\<close>

lemma median_right_any_sort:
  assumes "mset ys = mset areas_in" and "areas_in \<noteq> []"
    and "sorted (map (\<lambda>a. sint (right (a ! d))) ys)"
  shows "candidate_decision d ys =
         \<lparr>dimension_index = int d, ref_value = spec_threshold d areas_in\<rparr>"
  using candidate_decision_perm [OF assms(1,2), of d] sort_key_id_if_sorted [OF assms(3)]
  by simp

lemma count_areas_mset:
  assumes "mset ys = mset xs"
  shows "count_areas d v ys (0, 0, 0) = count_areas d v xs (0, 0, 0)"
  unfolding count_areas_eq
  using length_filter_mset_cong [OF assms] by simp

lemma best_decision_loop_eq:
  assumes "mset xs = mset areas_in" and "areas_in \<noteq> []"
  shows "\<exists>xs'. mset xs' = mset areas_in \<and>
           best_decision_loop ds (b, c, xs) =
           Inr (fst (pick_best areas_in ds (b, c)), snd (pick_best areas_in ds (b, c)), xs')"
  using assms(1)
proof (induction ds arbitrary: b c xs)
  case Nil
  then show ?case by simp
next
  case (Cons d ds)
  let ?s = "sort_key (\<lambda>a. sint (right (a ! d))) xs"
  have s: "mset ?s = mset areas_in" using Cons.prems by simp
  obtain l r where cnt: "count_areas d (spec_threshold d areas_in) ?s (0, 0, 0) =
               Inr (int (spec_cut_through d areas_in), l, r)"
    using count_areas_perm [OF Cons.prems] by blast
  have cand: "candidate_decision d ?s =
         \<lparr>dimension_index = int d, ref_value = spec_threshold d areas_in\<rparr>"
    by (rule candidate_decision_perm [OF Cons.prems assms(2)])
  have step: "best_decision_loop (d # ds) (b, c, xs) =
      (if dimension_index b = - 1 \<or> int (spec_cut_through d areas_in) < c
       then best_decision_loop ds
              (\<lparr>dimension_index = int d, ref_value = spec_threshold d areas_in\<rparr>,
               int (spec_cut_through d areas_in), ?s)
       else best_decision_loop ds (b, c, ?s))"
    by (simp only: best_decision_loop.simps Let_def cand cnt Decision.simps sum.case prod.case)
  show ?case
  proof (cases "dimension_index b = - 1 \<or> int (spec_cut_through d areas_in) < c")
    case True
    then show ?thesis
      using Cons.IH [OF s, of "\<lparr>dimension_index = int d, ref_value = spec_threshold d areas_in\<rparr>"
          "int (spec_cut_through d areas_in)"]
      by (simp only: step pick_best.simps if_True)
  next
    case False
    then show ?thesis
      using Cons.IH [OF s, of b c]
      by (simp only: step pick_best.simps if_False)
  qed
qed

lemma pick_best_append:
  "pick_best areas_in (ds @ es) st = pick_best areas_in es (pick_best areas_in ds st)"
  by (induction areas_in ds st rule: pick_best.induct) auto

lemma pick_best_upt:
  assumes "0 < n"
  shows "\<exists>d<n. pick_best areas_in [0..<n] (no_decision, - 1) =
           (\<lparr>dimension_index = int d, ref_value = spec_threshold d areas_in\<rparr>,
            int (spec_cut_through d areas_in))
         \<and> (\<forall>e<n. spec_cut_through d areas_in \<le> spec_cut_through e areas_in)
         \<and> (\<forall>e<d. spec_cut_through d areas_in < spec_cut_through e areas_in)"
  using assms
proof (induction n)
  case 0
  then show ?case by simp
next
  case (Suc n)
  show ?case
  proof (cases "n = 0")
    case True
    then show ?thesis by (simp add: no_decision_def)
  next
    case False
    then obtain d where d: "d < n"
      "pick_best areas_in [0..<n] (no_decision, - 1) =
           (\<lparr>dimension_index = int d, ref_value = spec_threshold d areas_in\<rparr>,
            int (spec_cut_through d areas_in))"
      "\<forall>e<n. spec_cut_through d areas_in \<le> spec_cut_through e areas_in"
      "\<forall>e<d. spec_cut_through d areas_in < spec_cut_through e areas_in"
      using Suc.IH by auto
    have unf: "pick_best areas_in [0..<Suc n] (no_decision, - 1) =
        pick_best areas_in [n] (\<lparr>dimension_index = int d, ref_value = spec_threshold d areas_in\<rparr>,
            int (spec_cut_through d areas_in))"
      using pick_best_append [of areas_in "[0..<n]" "[n]"] d(2) by simp
    show ?thesis
    proof (cases "spec_cut_through n areas_in < spec_cut_through d areas_in")
      case True
      have "\<forall>e<Suc n. spec_cut_through n areas_in \<le> spec_cut_through e areas_in"
        using True d(3) by (auto simp: less_Suc_eq intro: order_trans less_imp_le)
      moreover have "\<forall>e<n. spec_cut_through n areas_in < spec_cut_through e areas_in"
        using True d(3) by (auto intro: less_le_trans)
      ultimately show ?thesis
        using True unf by (intro exI [of _ n]) simp
    next
      case False
      have "\<forall>e<Suc n. spec_cut_through d areas_in \<le> spec_cut_through e areas_in"
        using False d(3) by (auto simp: less_Suc_eq)
      then show ?thesis
        using False unf d(1,4) by (intro exI [of _ d]) simp
    qed
  qed
qed

lemma best_decision_loop_upt:
  assumes "areas_in \<noteq> []" and "0 < dim"
  shows "\<exists>d<nat dim. \<exists>xs'.
           best_decision_loop [0..<nat dim] (no_decision, - 1, areas_in) =
             Inr (\<lparr>dimension_index = int d, ref_value = spec_threshold d areas_in\<rparr>,
                  int (spec_cut_through d areas_in), xs')
         \<and> (\<forall>e<nat dim. spec_cut_through d areas_in \<le> spec_cut_through e areas_in)
         \<and> (\<forall>e<d. spec_cut_through d areas_in < spec_cut_through e areas_in)"
proof -
  have "0 < nat dim" using assms(2) by simp
  from pick_best_upt [OF this, of areas_in]
  obtain d where d: "d < nat dim"
      "pick_best areas_in [0..<nat dim] (no_decision, - 1) =
           (\<lparr>dimension_index = int d, ref_value = spec_threshold d areas_in\<rparr>,
            int (spec_cut_through d areas_in))"
      "\<forall>e<nat dim. spec_cut_through d areas_in \<le> spec_cut_through e areas_in"
      "\<forall>e<d. spec_cut_through d areas_in < spec_cut_through e areas_in"
    by blast
  from best_decision_loop_eq [OF refl assms(1), of "[0..<nat dim]" no_decision "- 1"]
  obtain xs' where "best_decision_loop [0..<nat dim] (no_decision, - 1, areas_in) =
           Inr (fst (pick_best areas_in [0..<nat dim] (no_decision, - 1)),
                snd (pick_best areas_in [0..<nat dim] (no_decision, - 1)), xs')"
    by blast
  then have "best_decision_loop [0..<nat dim] (no_decision, - 1, areas_in) =
             Inr (\<lparr>dimension_index = int d, ref_value = spec_threshold d areas_in\<rparr>,
                  int (spec_cut_through d areas_in), xs')"
    by (simp only: d(2) fst_conv snd_conv)
  then show ?thesis using d(1,3,4) by blast
qed

lemma chosen_decision_props:
  assumes "areas_in \<noteq> []" and "0 < dim"
  shows "\<exists>d<nat dim.
           chosen_decision dim areas_in =
             \<lparr>dimension_index = int d, ref_value = spec_threshold d areas_in\<rparr>
         \<and> (\<forall>e<nat dim. spec_cut_through d areas_in \<le> spec_cut_through e areas_in)
         \<and> (\<forall>e<d. spec_cut_through d areas_in < spec_cut_through e areas_in)"
  using best_decision_loop_upt [OF assms] unfolding chosen_decision_def by force

lemma BuildTree_unfold:
  assumes "2 \<le> length areas_in" and "0 < dim"
    and "chosen_decision dim areas_in = \<lparr>dimension_index = int d, ref_value = v\<rparr>"
  shows "BuildTree dim areas_in =
     (if length (areas_to_left d v areas_in) = length areas_in
         \<or> length (areas_to_right d v areas_in) = length areas_in
      then Inr (DecisionTreeNode areas_in None None no_decision)
      else
        (case (if areas_to_left d v areas_in \<noteq> []
               then map_sum id Some (BuildTree dim (areas_to_left d v areas_in))
               else Inr None) of
           Inl e \<Rightarrow> Inl e
         | Inr l \<Rightarrow>
             (case (if areas_to_right d v areas_in \<noteq> []
                    then map_sum id Some (BuildTree dim (areas_to_right d v areas_in))
                    else Inr None) of
                Inl e \<Rightarrow> Inl e
              | Inr r \<Rightarrow>
                  Inr (DecisionTreeNode (areas_cut_through d v areas_in) l r
                         \<lparr>dimension_index = int d, ref_value = v\<rparr>))))"
proof -
  have ne: "areas_in \<noteq> []" using assms(1) by auto
  from best_decision_loop_upt [OF ne assms(2)]
  obtain d' xs' where d: 
     "best_decision_loop [0..<nat dim] (no_decision, - 1, areas_in) =
             Inr (\<lparr>dimension_index = int d', ref_value = spec_threshold d' areas_in\<rparr>,
                  int (spec_cut_through d' areas_in), xs')"
    by blast
  have "chosen_decision dim areas_in =
     \<lparr>dimension_index = int d', ref_value = spec_threshold d' areas_in\<rparr>"
    by (simp add: chosen_decision_def d)
  then have eq: "d' = d" "spec_threshold d' areas_in = v"
    using assms(3) by simp_all
  have loop: "best_decision_loop [0..<nat dim] (no_decision, - 1, areas_in) =
             Inr (\<lparr>dimension_index = int d, ref_value = v\<rparr>,
                  int (spec_cut_through d areas_in), xs')"
    using d eq by simp
  show ?thesis
    apply (subst BuildTree.simps)
    using assms(1) ne
    apply (simp add: loop partition_areas_eq areas_to_left_def areas_to_right_def
        areas_cut_through_def cong: sum.case_cong)
    done
qed

lemma length_areas_to_left_le: "length (areas_to_left d v xs) \<le> length xs"
  by (simp add: areas_to_left_def)

lemma length_areas_to_right_le: "length (areas_to_right d v xs) \<le> length xs"
  by (simp add: areas_to_right_def)

lemma BuildTree_single:
  "length areas_in = 1 \<Longrightarrow>
   BuildTree dim areas_in = Inr (DecisionTreeNode areas_in None None no_decision)"
  by (subst BuildTree.simps) simp

lemma BuildTree_total:
  assumes "0 < dim" and "areas_in \<noteq> []"
  shows "\<exists>n. BuildTree dim areas_in = Inr n"
  using assms(2)
proof (induction areas_in rule: length_induct)
  case (1 xs)
  show ?case
  proof (cases "length xs = 1")
    case True
    then show ?thesis by (simp add: BuildTree_single)
  next
    case False
    then have two: "2 \<le> length xs"
      using "1.prems" length_greater_0_conv [of xs] by linarith
    from chosen_decision_props [OF "1.prems" assms(1)]
    obtain d where d: "chosen_decision dim xs =
        \<lparr>dimension_index = int d, ref_value = spec_threshold d xs\<rparr>"
      by blast
    define v where "v = spec_threshold d xs"
    define pl where "pl = areas_to_left d v xs"
    define pr where "pr = areas_to_right d v xs"
    note unf = BuildTree_unfold [OF two assms(1) d, folded v_def, folded pl_def pr_def]
    show ?thesis
    proof (cases "length pl = length xs \<or> length pr = length xs")
      case True
      then show ?thesis
        using unf by simp
    next
      case False
      then have "length pl < length xs" "length pr < length xs"
        using length_areas_to_left_le [of d v xs] length_areas_to_right_le [of d v xs]
        by (auto simp: pl_def pr_def)
      then have l: "pl \<noteq> [] \<Longrightarrow> \<exists>n. BuildTree dim pl = Inr n"
        and r: "pr \<noteq> [] \<Longrightarrow> \<exists>n. BuildTree dim pr = Inr n"
        using "1.IH" by blast+
      show ?thesis
        using unf False l r by auto
    qed
  qed
qed

text \<open>
  With a dimension below 1 the loop over the dimensions makes no round, and the build of
  two or more areas stops at \<open>assert(best_decision.dimension_index != -1)\<close>.
\<close>

lemma BuildTree_no_dimension:
  assumes "dim \<le> 0" and "2 \<le> length areas_in"
  shows "BuildTree dim areas_in = Inl AssertionFailed"
proof -
  have "nat dim = 0" using assms(1) by simp
  then show ?thesis
    using assms(2) by (subst BuildTree.simps) (simp add: no_decision_def)
qed

lemma BuildTree_cases [consumes 2, case_names single degenerate split]:
  assumes "0 < dim" and "areas_in \<noteq> []"
  obtains
    "length areas_in = 1"
    "BuildTree dim areas_in = Inr (DecisionTreeNode areas_in None None no_decision)"
  | "2 \<le> length areas_in"
    "BuildTree dim areas_in = Inr (DecisionTreeNode areas_in None None no_decision)"
  | d v l r where
    "2 \<le> length areas_in" "d < nat dim" "v = spec_threshold d areas_in"
    "chosen_decision dim areas_in = \<lparr>dimension_index = int d, ref_value = v\<rparr>"
    "length (areas_to_left d v areas_in) < length areas_in"
    "length (areas_to_right d v areas_in) < length areas_in"
    "BuildTree dim areas_in =
       Inr (DecisionTreeNode (areas_cut_through d v areas_in) l r
              \<lparr>dimension_index = int d, ref_value = v\<rparr>)"
    "if areas_to_left d v areas_in = [] then l = None
     else \<exists>n. l = Some n \<and> BuildTree dim (areas_to_left d v areas_in) = Inr n"
    "if areas_to_right d v areas_in = [] then r = None
     else \<exists>n. r = Some n \<and> BuildTree dim (areas_to_right d v areas_in) = Inr n"
proof (cases "length areas_in = 1")
  case True
  then show ?thesis using that(1) BuildTree_single by blast
next
  case False
  then have two: "2 \<le> length areas_in"
    using assms(2) length_greater_0_conv [of areas_in] by linarith
  from chosen_decision_props [OF assms(2,1)]
  obtain d where d: "d < nat dim"
    "chosen_decision dim areas_in =
       \<lparr>dimension_index = int d, ref_value = spec_threshold d areas_in\<rparr>"
    by blast
  define v where "v = spec_threshold d areas_in"
  define pl where "pl = areas_to_left d v areas_in"
  define pr where "pr = areas_to_right d v areas_in"
  note unf = BuildTree_unfold [OF two assms(1) d(2), folded v_def, folded pl_def pr_def]
  show ?thesis
  proof (cases "length pl = length areas_in \<or> length pr = length areas_in")
    case True
    then show ?thesis using that(2) two unf by simp
  next
    case False
    then have lt: "length pl < length areas_in" "length pr < length areas_in"
      using length_areas_to_left_le [of d v areas_in]
        length_areas_to_right_le [of d v areas_in]
      by (auto simp: pl_def pr_def)
    obtain l where l: "if pl = [] then l = None else \<exists>n. l = Some n \<and> BuildTree dim pl = Inr n"
      using BuildTree_total [OF assms(1), of pl] by (cases "pl = []") auto
    obtain r where r: "if pr = [] then r = None else \<exists>n. r = Some n \<and> BuildTree dim pr = Inr n"
      using BuildTree_total [OF assms(1), of pr] by (cases "pr = []") auto
    have "BuildTree dim areas_in =
       Inr (DecisionTreeNode (areas_cut_through d v areas_in) l r
              \<lparr>dimension_index = int d, ref_value = v\<rparr>)"
      using unf False l r by (auto split: if_splits)
    then show ?thesis
      using that(3) [of d v l r] two d lt l r
      by (simp add: v_def [symmetric] pl_def [symmetric] pr_def [symmetric])
  qed
qed

lemma mset_three_way:
  "mset (areas_cut_through d v xs) + mset (areas_to_left d v xs) + mset (areas_to_right d v xs)
   = mset xs"
  unfolding areas_cut_through_def areas_to_left_def areas_to_right_def
  by (induction xs) auto

lemma set_three_way:
  "set xs = set (areas_cut_through d v xs) \<union> set (areas_to_left d v xs)
            \<union> set (areas_to_right d v xs)"
  unfolding areas_cut_through_def areas_to_left_def areas_to_right_def by auto

lemma SumAreasToCheckSizes_length:
  "SumAreasToCheckSizes n = length (subtree_areas n)"
  by (induction n) (auto split: option.splits)

lemma BuildTree_mset:
  assumes "0 < dim" and "areas_in \<noteq> []" and "BuildTree dim areas_in = Inr n"
  shows "mset (subtree_areas n) = mset areas_in"
  using assms(2,3)
proof (induction areas_in arbitrary: n rule: length_induct)
  case (1 xs)
  from assms(1) "1.prems"(1) show ?case
  proof (cases rule: BuildTree_cases)
    case single
    then show ?thesis using "1.prems"(2) by auto
  next
    case degenerate
    then show ?thesis using "1.prems"(2) by auto
  next
    case (split d v l r)
    have L: "mset (case l of Some m \<Rightarrow> subtree_areas m | None \<Rightarrow> []) =
             mset (areas_to_left d v xs)"
    proof (cases "areas_to_left d v xs = []")
      case True
      then show ?thesis using split(8) by simp
    next
      case False
      then obtain m where "l = Some m" "BuildTree dim (areas_to_left d v xs) = Inr m"
        using split(8) by auto
      then show ?thesis using "1.IH" split(5) False by auto
    qed
    have R: "mset (case r of Some m \<Rightarrow> subtree_areas m | None \<Rightarrow> []) =
             mset (areas_to_right d v xs)"
    proof (cases "areas_to_right d v xs = []")
      case True
      then show ?thesis using split(9) by simp
    next
      case False
      then obtain m where "r = Some m" "BuildTree dim (areas_to_right d v xs) = Inr m"
        using split(9) by auto
      then show ?thesis using "1.IH" split(6) False by auto
    qed
    have "n = DecisionTreeNode (areas_cut_through d v xs) l r
                \<lparr>dimension_index = int d, ref_value = v\<rparr>"
      using split(7) "1.prems"(2) by simp
    then show ?thesis
      using L R mset_three_way [of d v xs] by (simp add: add.assoc)
  qed
qed

section \<open>Queries on a built tree\<close>

lemma area_contains_point_nth:
  "area_contains_point a p \<Longrightarrow> i < length p \<Longrightarrow> Contains (a ! i) (p ! i)"
  by (simp add: area_contains_point_def list_all_iff)

lemma area_contains_point_iff:
  "area_contains_point a p \<longleftrightarrow> (\<forall>i<length p. Contains (a ! i) (p ! i))"
  by (simp add: area_contains_point_def list_all_iff Ball_def)

lemma BruteContains_iff:
  "BruteContains p xs \<longleftrightarrow> (\<exists>a\<in>set xs. area_contains_point a p)"
  by (simp add: BruteContains_def list_ex_iff)

lemma CurrentNodeContainsPoint_iff:
  "CurrentNodeContainsPoint xs p \<longleftrightarrow> (\<exists>a\<in>set xs. area_contains_point a p)"
  by (simp add: CurrentNodeContainsPoint_def list_ex_iff)

lemma IsValid_no_decision: "IsValid no_decision = Inr False"
  by (simp add: IsValid_def no_decision_def)

lemma IsValid_dimension: "IsValid \<lparr>dimension_index = int d, ref_value = v\<rparr> = Inr True"
  by (simp add: IsValid_def)

lemma FindPoint_leaf:
  "FindPoint (DecisionTreeNode xs None None no_decision) p = Inr (BruteContains p xs)"
  by (simp add: IsValid_no_decision BruteContains_iff CurrentNodeContainsPoint_iff)

lemma not_in_left_if_above:
  assumes "a \<in> set (areas_to_left d v xs)" and "area_contains_point a p" and "d < length p"
  shows "p ! d <s v"
  using assms(1) area_contains_point_nth [OF assms(2,3)]
  by (auto simp: areas_to_left_def Contains_def ToTheLeft_def word_sle_eq word_sless_alt)

lemma not_in_right_if_below:
  assumes "a \<in> set (areas_to_right d v xs)" and "area_contains_point a p" and "d < length p"
  shows "v <s p ! d"
  using assms(1) area_contains_point_nth [OF assms(2,3)]
  by (auto simp: areas_to_right_def Contains_def ToTheLeft_def word_sle_eq word_sless_alt)

lemma sless_asym: "a <s b \<Longrightarrow> \<not> b <s (a :: int32)"
  by (simp add: word_sless_alt)

lemma FindPoint_BuildTree:
  assumes "0 < dim" and "areas_in \<noteq> []" and "BuildTree dim areas_in = Inr n"
    and "length p = nat dim"
  shows "FindPoint n p = Inr (BruteContains p areas_in)"
  using assms(2,3)
proof (induction areas_in arbitrary: n rule: length_induct)
  case (1 xs)
  from assms(1) "1.prems"(1) show ?case
  proof (cases rule: BuildTree_cases)
    case single
    then show ?thesis using "1.prems"(2) by (simp add: FindPoint_leaf del: FindPoint.simps)
  next
    case degenerate
    then show ?thesis using "1.prems"(2) by (simp add: FindPoint_leaf del: FindPoint.simps)
  next
    case (split d v l r)
    let ?chk = "areas_cut_through d v xs"
    let ?pl = "areas_to_left d v xs"
    let ?pr = "areas_to_right d v xs"
    have dp: "d < length p" using split(2) assms(4) by simp
    have n: "n = DecisionTreeNode ?chk l r \<lparr>dimension_index = int d, ref_value = v\<rparr>"
      using split(7) "1.prems"(2) by simp
    have L: "(case l of Some m \<Rightarrow> FindPoint m p | None \<Rightarrow> Inr False) =
             Inr (BruteContains p ?pl)"
    proof (cases "?pl = []")
      case True
      then show ?thesis using split(8) by (simp add: BruteContains_iff)
    next
      case False
      then obtain m where "l = Some m" "BuildTree dim ?pl = Inr m"
        using split(8) by auto
      then show ?thesis using "1.IH" split(5) False by auto
    qed
    have R: "(case r of Some m \<Rightarrow> FindPoint m p | None \<Rightarrow> Inr False) =
             Inr (BruteContains p ?pr)"
    proof (cases "?pr = []")
      case True
      then show ?thesis using split(9) by (simp add: BruteContains_iff)
    next
      case False
      then obtain m where "r = Some m" "BuildTree dim ?pr = Inr m"
        using split(9) by auto
      then show ?thesis using "1.IH" split(6) False by auto
    qed
    have all: "BruteContains p xs \<longleftrightarrow>
        CurrentNodeContainsPoint ?chk p \<or> BruteContains p ?pl \<or> BruteContains p ?pr"
      unfolding BruteContains_iff CurrentNodeContainsPoint_iff
      using set_three_way [of xs d v] by blast
    have noL: "\<not> p ! d <s v \<Longrightarrow> \<not> BruteContains p ?pl"
      unfolding BruteContains_iff using not_in_left_if_above [OF _ _ dp] by blast
    have noR: "\<not> v <s p ! d \<Longrightarrow> \<not> BruteContains p ?pr"
      unfolding BruteContains_iff using not_in_right_if_below [OF _ _ dp] by blast
    show ?thesis
    proof (cases "CurrentNodeContainsPoint ?chk p")
      case True
      then show ?thesis using all by (simp add: n)
    next
      case False
      show ?thesis
      proof (cases "p ! d <s v")
        case True
        then have "\<not> BruteContains p ?pr" using noR sless_asym by blast
        then show ?thesis
          using False True L all by (simp add: n IsValid_dimension)
      next
        case nl: False
        show ?thesis
        proof (cases "v <s p ! d")
          case True
          then show ?thesis
            using False nl R all noL by (simp add: n IsValid_dimension)
        next
          case nr: False
          then show ?thesis
            using False nl all noL noR by (simp add: n IsValid_dimension)
        qed
      qed
    qed
  qed
qed

section \<open>Rebuilding and querying the index\<close>

lemma RebuildTreeIfDirty_result:
  assumes "tree_consistent t" and "0 < dimension t" and "areas t \<noteq> []"
  shows "\<exists>n. BuildTree (dimension t) (areas t) = Inr n
          \<and> RebuildTreeIfDirty t = Inr (t\<lparr>dirty := False, root := Some n\<rparr>)"
proof -
  obtain n where n: "BuildTree (dimension t) (areas t) = Inr n"
    using BuildTree_total [OF assms(2,3)] by blast
  show ?thesis
  proof (cases "dirty t")
    case True
    then show ?thesis
      using n by (simp add: RebuildTreeIfDirty_def RebuildTree_def)
  next
    case False
    then have "root t = Some n"
      using assms(1) n by (auto simp: tree_consistent_def split: option.splits)
    then have "t\<lparr>dirty := False, root := Some n\<rparr> = t"
      using False by simp
    then show ?thesis
      using n False by (simp add: RebuildTreeIfDirty_def)
  qed
qed

lemma ContainsPoint_result:
  assumes "tree_consistent t" and "0 < dimension t" and "areas t \<noteq> []"
    and "int (length p) = dimension t"
  shows "\<exists>n. BuildTree (dimension t) (areas t) = Inr n
          \<and> ContainsPoint t p =
              Inr (BruteContains p (areas t), t\<lparr>dirty := False, root := Some n\<rparr>)"
proof -
  obtain n where n: "BuildTree (dimension t) (areas t) = Inr n"
    "RebuildTreeIfDirty t = Inr (t\<lparr>dirty := False, root := Some n\<rparr>)"
    using RebuildTreeIfDirty_result [OF assms(1-3)] by blast
  have "length p = nat (dimension t)" using assms(4) by simp
  then have "FindPoint n p = Inr (BruteContains p (areas t))"
    using FindPoint_BuildTree [OF assms(2,3) n(1)] by simp
  then show ?thesis
    using n assms(4) by (simp add: ContainsPoint_def)
qed

lemma tree_consistent_new: "tree_consistent (new_DecisionTree dim)"
  by (simp add: tree_consistent_def new_DecisionTree_def)

lemma tree_consistent_AddArea:
  "AddArea t area = Inr t' \<Longrightarrow> tree_consistent t'"
  by (auto simp: AddArea_def tree_consistent_def split: if_splits)

lemma tree_consistent_RebuildTree:
  "RebuildTree t = Inr t' \<Longrightarrow> tree_consistent t'"
  by (auto simp: RebuildTree_def tree_consistent_def split: sum.splits)

lemma tree_consistent_RebuildTreeIfDirty:
  "tree_consistent t \<Longrightarrow> RebuildTreeIfDirty t = Inr t' \<Longrightarrow> tree_consistent t'"
  by (auto simp: RebuildTreeIfDirty_def RebuildTree_def tree_consistent_def
      split: sum.splits if_splits)

lemma tree_consistent_ContainsPoint:
  "tree_consistent t \<Longrightarrow> ContainsPoint t p = Inr (b, t') \<Longrightarrow> tree_consistent t'"
  by (auto simp: ContainsPoint_def dest: tree_consistent_RebuildTreeIfDirty
      split: sum.splits if_splits option.splits)

lemma areas_RebuildTree:
  "RebuildTree t = Inr t' \<Longrightarrow> areas t' = areas t \<and> dimension t' = dimension t"
  by (auto simp: RebuildTree_def split: sum.splits)

lemma areas_RebuildTreeIfDirty:
  "RebuildTreeIfDirty t = Inr t' \<Longrightarrow> areas t' = areas t \<and> dimension t' = dimension t"
  by (auto simp: RebuildTreeIfDirty_def RebuildTree_def split: sum.splits if_splits)

lemma areas_ContainsPoint:
  "ContainsPoint t p = Inr (b, t') \<Longrightarrow> areas t' = areas t \<and> dimension t' = dimension t"
  by (auto simp: ContainsPoint_def dest: areas_RebuildTreeIfDirty
      split: sum.splits if_splits option.splits)

lemma reachable_invariant:
  "reachable t \<Longrightarrow>
   tree_consistent t \<and> (\<forall>a\<in>set (areas t). int (length a) = dimension t)"
proof (induction rule: reachable.induct)
  case (reachable_new dim)
  then show ?case by (simp add: tree_consistent_new) (simp add: new_DecisionTree_def)
next
  case (reachable_AddArea t area t')
  then show ?case
    using tree_consistent_AddArea [of t area t']
    by (auto simp: AddArea_def split: if_splits)
next
  case (reachable_RebuildTree t t')
  then show ?case
    using tree_consistent_RebuildTree [of t t'] areas_RebuildTree [of t t'] by simp
next
  case (reachable_RebuildTreeIfDirty t t')
  then show ?case
    using tree_consistent_RebuildTreeIfDirty [of t t'] areas_RebuildTreeIfDirty [of t t']
    by simp
next
  case (reachable_ContainsPoint t p b t')
  then show ?case
    using tree_consistent_ContainsPoint [of t p b t'] areas_ContainsPoint [of t p b t']
    by simp
qed

lemma scenario3_inserted:
  "AddArea (new_DecisionTree 1) [\<lparr>left = 0, right = 5\<rparr>]
     = Inr \<lparr>dimension = 1, dirty = True, root = None, areas = [[\<lparr>left = 0, right = 5\<rparr>]]\<rparr>
   \<and> AddArea \<lparr>dimension = 1, dirty = True, root = None, areas = [[\<lparr>left = 0, right = 5\<rparr>]]\<rparr>
         [\<lparr>left = 6, right = 10\<rparr>]
     = Inr scenario3_index"
  by (simp add: AddArea_def new_DecisionTree_def scenario3_index_def scenario3_areas_def)

lemma scenario3_reachable: "reachable scenario3_index"
  using scenario3_inserted reachable_AddArea [OF reachable_AddArea [OF reachable_new]]
  by blast

text \<open>
  C1. For every index that a client can reach, of dimension \<open>D \<ge> 1\<close> (the
  specification fixes \<open>D \<ge> 1\<close>) and with at least one area inserted, \<open>ContainsPoint\<close>
  on a point of \<open>D\<close> coordinates returns, without failing, the boolean that the linear
  scan \<open>BruteContains\<close> returns on the inserted areas, and leaves the areas as they
  were and the index clean. The areas of a reachable index have \<open>D\<close> intervals each,
  since \<open>AddArea\<close> asserts it; their bounds need not satisfy \<open>left \<le> right\<close>.
\<close>

theorem ContainsPoint_equals_BruteContains:
  assumes "reachable t" and "0 < dimension t" and "areas t \<noteq> []"
    and "int (length p) = dimension t"
  shows "\<exists>t'. ContainsPoint t p = Inr (BruteContains p (GetAllAreas t), t')
          \<and> GetAllAreas t' = GetAllAreas t \<and> \<not> dirty t' \<and> reachable t'"
proof -
  have c: "tree_consistent t" using reachable_invariant [OF assms(1)] by simp
  obtain n where n: "BuildTree (dimension t) (areas t) = Inr n"
    "ContainsPoint t p =
       Inr (BruteContains p (areas t), t\<lparr>dirty := False, root := Some n\<rparr>)"
    using ContainsPoint_result [OF c assms(2-4)] by blast
  have "reachable (t\<lparr>dirty := False, root := Some n\<rparr>)"
    using reachable_ContainsPoint [OF assms(1) n(2)] .
  then show ?thesis
    using n(2) by (simp add: GetAllAreas_def)
qed

theorem ContainsPoint_equals_BruteContains_witness:
  "\<exists>t'. ContainsPoint scenario3_index [7] =
           Inr (BruteContains [7] (GetAllAreas scenario3_index), t')
        \<and> GetAllAreas t' = GetAllAreas scenario3_index \<and> \<not> dirty t' \<and> reachable t'"
  by (rule ContainsPoint_equals_BruteContains [OF scenario3_reachable])
    (simp_all add: scenario3_index_def scenario3_areas_def)

text \<open>
  C2. On a reachable index of dimension \<open>D \<ge> 1\<close>, when some inserted area contains
  the point of \<open>D\<close> coordinates in every dimension, \<open>ContainsPoint\<close> returns true.
\<close>

theorem ContainsPoint_sound:
  assumes "reachable t" and "0 < dimension t"
    and "int (length p) = dimension t"
    and "R \<in> set (areas t)" and "\<forall>i<length p. Contains (R ! i) (p ! i)"
  shows "\<exists>t'. ContainsPoint t p = Inr (True, t')"
proof -
  have c: "tree_consistent t" using reachable_invariant [OF assms(1)] by simp
  have ne: "areas t \<noteq> []" using assms(4) by auto
  have "area_contains_point R p"
    using assms(5) by (simp add: area_contains_point_iff)
  then have "BruteContains p (areas t)"
    using assms(4) BruteContains_iff by blast
  then show ?thesis
    using ContainsPoint_result [OF c assms(2) ne assms(3)] by auto
qed

theorem ContainsPoint_sound_witness:
  "\<exists>t'. ContainsPoint scenario3_index [5] = Inr (True, t')"
  by (rule ContainsPoint_sound [OF scenario3_reachable, where R = "[\<lparr>left = 0, right = 5\<rparr>]"])
    (simp_all add: scenario3_index_def scenario3_areas_def Contains_def word_sle_eq)

text \<open>
  C5. A rebuild from a non-empty list of areas (dimension \<open>D \<ge> 1\<close>, every area of
  \<open>D\<close> intervals) succeeds, and afterwards \<open>SumAreasToCheckSizes\<close> is the number of
  areas of \<open>GetAllAreas\<close>; the buckets of the tree, taken together, hold exactly the
  inserted areas, each as often as it was inserted. This holds for the explicit
  \<open>RebuildTree\<close> and for the rebuild that \<open>RebuildTreeIfDirty\<close> makes on a dirty index.
\<close>

theorem bucket_conservation:
  assumes "0 < dimension t" and "areas t \<noteq> []"
    and "\<forall>a\<in>set (areas t). int (length a) = dimension t"
    and "rebuild = RebuildTree \<or> (rebuild = RebuildTreeIfDirty \<and> dirty t)"
  shows "\<exists>t' n. rebuild t = Inr t' \<and> root t' = Some n
          \<and> tree_SumAreasToCheckSizes t' = Inr (length (GetAllAreas t'))
          \<and> mset (subtree_areas n) = mset (GetAllAreas t')
          \<and> GetAllAreas t' = GetAllAreas t"
proof -
  obtain n where n: "BuildTree (dimension t) (areas t) = Inr n"
    using BuildTree_total [OF assms(1,2)] by blast
  have m: "mset (subtree_areas n) = mset (areas t)"
    by (rule BuildTree_mset [OF assms(1,2) n])
  then have "size (mset (subtree_areas n)) = size (mset (areas t))"
    by (rule arg_cong)
  then have len: "SumAreasToCheckSizes n = length (areas t)"
    by (simp add: SumAreasToCheckSizes_length)
  from assms(4) show ?thesis
  proof
    assume "rebuild = RebuildTree"
    then show ?thesis
      using n m len
      by (simp add: RebuildTree_def tree_SumAreasToCheckSizes_def GetAllAreas_def)
  next
    assume "rebuild = RebuildTreeIfDirty \<and> dirty t"
    then show ?thesis
      using n m len
      by (simp add: RebuildTreeIfDirty_def RebuildTree_def tree_SumAreasToCheckSizes_def
          GetAllAreas_def)
  qed
qed

theorem bucket_conservation_witness:
  "\<exists>t' n. RebuildTree scenario3_index = Inr t' \<and> root t' = Some n
          \<and> tree_SumAreasToCheckSizes t' = Inr (length (GetAllAreas t'))
          \<and> mset (subtree_areas n) = mset (GetAllAreas t')
          \<and> GetAllAreas t' = GetAllAreas scenario3_index"
  by (rule bucket_conservation)
    (simp_all add: scenario3_index_def scenario3_areas_def)

text \<open>
  C8. On an index into which no area has been inserted, \<open>ContainsPoint\<close> fails for
  every point, whatever the dimension: either the arity assertion fails or the rebuild
  reaches \<open>assert(areas_to_add.size() > 0)\<close>. It returns no boolean.
\<close>

theorem ContainsPoint_empty_index_fails:
  "ContainsPoint (new_DecisionTree dim) p = Inl AssertionFailed"
proof -
  have "BuildTree dim [] = Inl AssertionFailed"
    by (subst BuildTree.simps) simp
  then show ?thesis
    by (simp add: ContainsPoint_def new_DecisionTree_def RebuildTreeIfDirty_def
        RebuildTree_def)
qed

text \<open>
  C3. At a node with a valid decision, \<open>FindPoint\<close> scans the bucket first and
  returns true when an area of the bucket contains the point in every coordinate;
  otherwise it descends to the left child when the coordinate at the dimension of the
  decision is strictly below the threshold, to the right child when it is strictly
  above, with false for an absent child, and returns false without descending when the
  coordinate equals the threshold.
\<close>

theorem FindPoint_valid_decision:
  assumes "IsValid dec = Inr True"
  shows "(CurrentNodeContainsPoint chk p
           = (\<exists>area\<in>set chk. \<forall>i<length p. Contains (area ! i) (p ! i)))
    \<and> (CurrentNodeContainsPoint chk p \<longrightarrow>
           FindPoint (DecisionTreeNode chk l r dec) p = Inr True)
    \<and> (\<not> CurrentNodeContainsPoint chk p \<and> p ! nat (dimension_index dec) <s ref_value dec \<longrightarrow>
           FindPoint (DecisionTreeNode chk l r dec) p
           = (case l of None \<Rightarrow> Inr False | Some n \<Rightarrow> FindPoint n p))
    \<and> (\<not> CurrentNodeContainsPoint chk p \<and> ref_value dec <s p ! nat (dimension_index dec) \<longrightarrow>
           FindPoint (DecisionTreeNode chk l r dec) p
           = (case r of None \<Rightarrow> Inr False | Some n \<Rightarrow> FindPoint n p))
    \<and> (\<not> CurrentNodeContainsPoint chk p \<and> p ! nat (dimension_index dec) = ref_value dec \<longrightarrow>
           FindPoint (DecisionTreeNode chk l r dec) p = Inr False)"
proof -
  have 1: "CurrentNodeContainsPoint chk p
           = (\<exists>area\<in>set chk. \<forall>i<length p. Contains (area ! i) (p ! i))"
    by (simp add: CurrentNodeContainsPoint_iff area_contains_point_iff)
  have 2: "CurrentNodeContainsPoint chk p \<longrightarrow>
           FindPoint (DecisionTreeNode chk l r dec) p = Inr True"
    by simp
  have 3: "\<not> CurrentNodeContainsPoint chk p \<and> p ! nat (dimension_index dec) <s ref_value dec \<longrightarrow>
           FindPoint (DecisionTreeNode chk l r dec) p
           = (case l of None \<Rightarrow> Inr False | Some n \<Rightarrow> FindPoint n p)"
    using assms by (simp split: option.splits)
  have 4: "\<not> CurrentNodeContainsPoint chk p \<and> ref_value dec <s p ! nat (dimension_index dec) \<longrightarrow>
           FindPoint (DecisionTreeNode chk l r dec) p
           = (case r of None \<Rightarrow> Inr False | Some n \<Rightarrow> FindPoint n p)"
    using assms by (auto simp: word_sless_alt split: option.splits)
  have 5: "\<not> CurrentNodeContainsPoint chk p \<and> p ! nat (dimension_index dec) = ref_value dec \<longrightarrow>
           FindPoint (DecisionTreeNode chk l r dec) p = Inr False"
    using assms by (simp add: word_sless_alt)
  from 1 2 3 4 5 show ?thesis by (intro conjI)
qed

theorem FindPoint_valid_decision_witness:
  "FindPoint (DecisionTreeNode [] None None \<lparr>dimension_index = 0, ref_value = 6\<rparr>) [6]
   = Inr False"
  using FindPoint_valid_decision
    [of "\<lparr>dimension_index = 0, ref_value = 6\<rparr>" "[]" "[6]" None None]
  by (simp add: IsValid_def CurrentNodeContainsPoint_def)

section \<open>The split invariant\<close>

lemma BuildTree_set:
  assumes "0 < dim" and "areas_in \<noteq> []" and "BuildTree dim areas_in = Inr n"
  shows "set (subtree_areas n) = set areas_in"
  using BuildTree_mset [OF assms] by (rule mset_eq_setD)

lemma areas_to_left_bound:
  "a \<in> set (areas_to_left d v xs) \<Longrightarrow> right (a ! d) <s v"
  by (simp add: areas_to_left_def ToTheLeft_def)

lemma areas_to_right_bound:
  "a \<in> set (areas_to_right d v xs) \<Longrightarrow> v <s left (a ! d)"
  using interval_trichotomy [of "a ! d" v]
  by (auto simp: areas_to_right_def ToTheRight_def)

lemma split_invariant_leaf:
  "split_invariant xs (DecisionTreeNode ys None None no_decision)"
  by (simp add: IsValid_no_decision)

lemma split_invariant_BuildTree:
  assumes "0 < dim" and "areas_in \<noteq> []" and "BuildTree dim areas_in = Inr n"
  shows "split_invariant areas_in n"
  using assms(2,3)
proof (induction areas_in arbitrary: n rule: length_induct)
  case (1 xs)
  from assms(1) "1.prems"(1) show ?case
  proof (cases rule: BuildTree_cases)
    case single
    then show ?thesis using "1.prems"(2) by (simp add: split_invariant_leaf)
  next
    case degenerate
    then show ?thesis using "1.prems"(2) by (simp add: split_invariant_leaf)
  next
    case (split d v l r)
    let ?chk = "areas_cut_through d v xs"
    let ?pl = "areas_to_left d v xs"
    let ?pr = "areas_to_right d v xs"
    have n: "n = DecisionTreeNode ?chk l r \<lparr>dimension_index = int d, ref_value = v\<rparr>"
      using split(7) "1.prems"(2) by simp
    have L: "set (case l of Some m \<Rightarrow> subtree_areas m | None \<Rightarrow> []) = set ?pl
             \<and> (case l of Some m \<Rightarrow> split_invariant ?pl m | None \<Rightarrow> True)"
    proof (cases "?pl = []")
      case True
      then show ?thesis using split(8) by simp
    next
      case False
      then obtain m where m: "l = Some m" "BuildTree dim ?pl = Inr m"
        using split(8) by auto
      then have "split_invariant ?pl m" using "1.IH" split(5) False by blast
      then show ?thesis using m BuildTree_set [OF assms(1) False m(2)] by simp
    qed
    have R: "set (case r of Some m \<Rightarrow> subtree_areas m | None \<Rightarrow> []) = set ?pr
             \<and> (case r of Some m \<Rightarrow> split_invariant ?pr m | None \<Rightarrow> True)"
    proof (cases "?pr = []")
      case True
      then show ?thesis using split(9) by simp
    next
      case False
      then obtain m where m: "r = Some m" "BuildTree dim ?pr = Inr m"
        using split(9) by auto
      then have "split_invariant ?pr m" using "1.IH" split(6) False by blast
      then show ?thesis using m BuildTree_set [OF assms(1) False m(2)] by simp
    qed
    have C: "\<forall>a\<in>set xs. Contains (a ! d) v \<longrightarrow> a \<in> set ?chk"
      by (simp add: areas_cut_through_def)
    show ?thesis
      unfolding n
      using L R C areas_to_left_bound [of _ d v xs] areas_to_right_bound [of _ d v xs]
      by (simp add: IsValid_dimension Let_def)
  qed
qed

text \<open>
  C10. The tree built from a non-empty list of areas (dimension \<open>D \<ge> 1\<close>, every area
  of \<open>D\<close> intervals) satisfies the split invariant: at every node with a valid decision
  of dimension \<open>d\<close> and threshold \<open>t\<close>, the areas of the left subtree have their right
  bound at \<open>d\<close> strictly below \<open>t\<close>, those of the right subtree their left bound
  strictly above \<open>t\<close>, and every area given to the node that contains \<open>t\<close> at \<open>d\<close>
  is in its bucket.
\<close>

theorem BuildTree_split_invariant:
  assumes "0 < dim" and "areas_in \<noteq> []"
    and "\<forall>a\<in>set areas_in. int (length a) = dim"
  shows "\<exists>n. BuildTree dim areas_in = Inr n \<and> split_invariant areas_in n"
  using BuildTree_total [OF assms(1,2)] split_invariant_BuildTree [OF assms(1,2)]
  by blast

theorem BuildTree_split_invariant_witness:
  "\<exists>n. BuildTree 1 scenario3_areas = Inr n \<and> split_invariant scenario3_areas n"
  by (rule BuildTree_split_invariant) (simp_all add: scenario3_areas_def)

section \<open>The decision chosen by the build\<close>

lemma right_bounds_ascending_props:
  "sorted_wrt (\<le>s) (right_bounds_ascending d areas_in)
   \<and> mset (right_bounds_ascending d areas_in) = mset (map (\<lambda>a. right (a ! d)) areas_in)"
proof -
  have "sorted (map sint (right_bounds_ascending d areas_in))"
    by (simp add: right_bounds_ascending_def)
  then have "sorted_wrt (\<le>s) (right_bounds_ascending d areas_in)"
    by (simp add: sorted_wrt_map word_sle_eq [abs_def])
  then show ?thesis by (simp add: right_bounds_ascending_def)
qed

lemma sint_plus_one:
  fixes x :: int32
  assumes "sint x < 2147483647"
  shows "sint (x + 1) = sint x + 1"
proof -
  have "- (2 ^ 31) \<le> sint x" using sint_ge [of x] by simp
  then have "signed_take_bit 31 (sint x + 1) = sint x + 1"
    using assms by (simp add: signed_take_bit_int_eq_self)
  then show ?thesis by (simp add: sint_word_ariths)
qed

text \<open>
  C9. For at least two areas and dimension \<open>D \<ge> 1\<close>: in every round \<open>d\<close> of the
  loop, on the vector as the earlier rounds have reordered it, the candidate decision
  has dimension \<open>d\<close> and the threshold \<open>spec_threshold d\<close>, which is the element at
  index \<open>(n - 1) div 2\<close> of the ascending sequence of the right bounds at \<open>d\<close> plus
  one in the 32-bit arithmetic of the program (the integer successor whenever that
  element is below the largest \<open>int\<close>), and its count is the number of areas whose
  interval at \<open>d\<close> contains the threshold. The decision held after the loop is the
  candidate of a dimension whose count is smallest over all dimensions, and strictly
  smaller than the count of every earlier dimension.
\<close>

theorem BuildTree_decision_choice:
  assumes "2 \<le> length areas_in" and "0 < dim"
    and "\<forall>a\<in>set areas_in. int (length a) = dim"
  shows "(\<forall>d<nat dim.
            spec_threshold d areas_in
              = right_bounds_ascending d areas_in ! ((length areas_in - 1) div 2) + 1
          \<and> (sint (right_bounds_ascending d areas_in ! ((length areas_in - 1) div 2))
                 < 2147483647 \<longrightarrow>
               sint (spec_threshold d areas_in)
                 = sint (right_bounds_ascending d areas_in ! ((length areas_in - 1) div 2)) + 1)
          \<and> (\<forall>xs. mset xs = mset areas_in \<longrightarrow>
                 candidate_decision d (sort_key (\<lambda>a. sint (right (a ! d))) xs)
                   = \<lparr>dimension_index = int d, ref_value = spec_threshold d areas_in\<rparr>
               \<and> (\<exists>l r. count_areas d (spec_threshold d areas_in)
                           (sort_key (\<lambda>a. sint (right (a ! d))) xs) (0, 0, 0)
                         = Inr (int (spec_cut_through d areas_in), l, r))))
       \<and> (\<exists>d<nat dim. \<exists>xs'.
            best_decision_loop [0..<nat dim] (no_decision, - 1, areas_in)
              = Inr (\<lparr>dimension_index = int d, ref_value = spec_threshold d areas_in\<rparr>,
                     int (spec_cut_through d areas_in), xs')
          \<and> (\<forall>e<nat dim. spec_cut_through d areas_in \<le> spec_cut_through e areas_in)
          \<and> (\<forall>e<d. spec_cut_through d areas_in < spec_cut_through e areas_in))"
proof -
  have ne: "areas_in \<noteq> []" using assms(1) by auto
  have "spec_threshold d areas_in
              = right_bounds_ascending d areas_in ! ((length areas_in - 1) div 2) + 1
          \<and> (sint (right_bounds_ascending d areas_in ! ((length areas_in - 1) div 2))
                 < 2147483647 \<longrightarrow>
               sint (spec_threshold d areas_in)
                 = sint (right_bounds_ascending d areas_in ! ((length areas_in - 1) div 2)) + 1)
          \<and> (\<forall>xs. mset xs = mset areas_in \<longrightarrow>
                 candidate_decision d (sort_key (\<lambda>a. sint (right (a ! d))) xs)
                   = \<lparr>dimension_index = int d, ref_value = spec_threshold d areas_in\<rparr>
               \<and> (\<exists>l r. count_areas d (spec_threshold d areas_in)
                           (sort_key (\<lambda>a. sint (right (a ! d))) xs) (0, 0, 0)
                         = Inr (int (spec_cut_through d areas_in), l, r)))" for d
    using candidate_decision_perm [OF _ ne, of _ d] count_areas_perm [of _ areas_in d]
    by (simp add: spec_threshold_def sint_plus_one)
  then show ?thesis
    using best_decision_loop_upt [OF ne assms(2)] by blast
qed

theorem BuildTree_decision_choice_witness:
  "\<exists>d<nat 1. \<exists>xs'.
     best_decision_loop [0..<nat 1] (no_decision, - 1, scenario3_areas)
       = Inr (\<lparr>dimension_index = int d, ref_value = spec_threshold d scenario3_areas\<rparr>,
              int (spec_cut_through d scenario3_areas), xs')
     \<and> (\<forall>e<nat 1. spec_cut_through d scenario3_areas \<le> spec_cut_through e scenario3_areas)"
proof -
  have "2 \<le> length scenario3_areas" "(0::int) < 1"
    "\<forall>a\<in>set scenario3_areas. int (length a) = 1"
    by (simp_all add: scenario3_areas_def)
  from BuildTree_decision_choice [OF this]
  show ?thesis by blast
qed

lemma scenario3_threshold:
  "spec_threshold 0 scenario3_areas = 6 \<and> spec_cut_through 0 scenario3_areas = 1"
  by code_simp

section \<open>Areas that no decision separates\<close>

lemma filter_identical:
  "\<forall>a\<in>set xs. a = r0 \<Longrightarrow> filter P xs = (if P r0 then xs else [])"
  by (induction xs) auto

lemma spec_threshold_identical:
  assumes "areas_in \<noteq> []" and "\<forall>a\<in>set areas_in. a = r0"
  shows "spec_threshold d areas_in = right (r0 ! d) + 1"
proof -
  let ?m = "(length areas_in - 1) div 2"
  have "0 < length areas_in" using assms(1) by simp
  then have "?m < length areas_in" by linarith
  then have "?m < length (right_bounds_ascending d areas_in)"
    by (simp add: right_bounds_ascending_def)
  then have "right_bounds_ascending d areas_in ! ?m \<in> set (right_bounds_ascending d areas_in)"
    by (rule nth_mem)
  then have "right_bounds_ascending d areas_in ! ?m = right (r0 ! d)"
    using assms(2) by (auto simp: right_bounds_ascending_def)
  then show ?thesis by (simp add: spec_threshold_def)
qed

lemma not_Contains_successor:
  assumes "sint (right iv) < 2147483647 \<or> - 2147483648 < sint (left iv)"
  shows "\<not> Contains iv (right iv + 1)"
proof (cases "sint (right iv) < 2147483647")
  case True
  then show ?thesis
    by (simp add: Contains_def word_sle_eq sint_plus_one)
next
  case False
  have "sint (right iv) \<le> 2147483647"
    using sint_lt [of "right iv"] by simp
  then have "sint (right iv) = sint (2147483647 :: int32)"
    using False by simp
  then have "right iv = 2147483647"
    by (rule signed_word_eqI)
  then have "sint (right iv + 1) = - 2147483648"
    by simp
  then show ?thesis
    using assms False by (simp add: Contains_def word_sle_eq)
qed

lemma BuildTree_identical_areas:
  assumes "0 < dim" and "areas_in \<noteq> []" and "\<forall>a\<in>set areas_in. a = r0"
    and "d0 < nat dim"
    and "sint (right (r0 ! d0)) < 2147483647 \<or> - 2147483648 < sint (left (r0 ! d0))"
  shows "BuildTree dim areas_in = Inr (DecisionTreeNode areas_in None None no_decision)"
  using assms(1,2)
proof (cases rule: BuildTree_cases)
  case single
  then show ?thesis by simp
next
  case degenerate
  then show ?thesis by simp
next
  case (split d v l r)
  have "spec_cut_through d0 areas_in = 0"
    using not_Contains_successor [OF assms(5)] assms(3)
    by (simp add: spec_cut_through_def spec_threshold_identical [OF assms(2,3)]
        filter_identical [OF assms(3)])
  moreover from chosen_decision_props [OF assms(2,1)]
  have "spec_cut_through d areas_in \<le> spec_cut_through d0 areas_in"
    using split(4) assms(4) by auto
  ultimately have "areas_cut_through d v areas_in = []"
    using split(3) by (simp add: spec_cut_through_def areas_cut_through_def)
  moreover have "areas_to_left d v areas_in = []"
    using split(5) by (simp add: areas_to_left_def filter_identical [OF assms(3)] split: if_splits)
  moreover have "areas_to_right d v areas_in = []"
    using split(6) by (simp add: areas_to_right_def filter_identical [OF assms(3)] split: if_splits)
  ultimately have "mset areas_in = {#}"
    using mset_three_way [of d v areas_in] by simp
  then show ?thesis using assms(2) by simp
qed

text \<open>
  C4. \<open>BuildTree\<close> is a total function: its recursion terminates on every input, on
  lists smaller at each call (the termination proof of its definition), and it returns a
  node for every non-empty list when \<open>D \<ge> 1\<close> (\<open>BuildTree_total\<close>). Areas that are
  all the same give a single node without decision and without children
  (\<open>BuildTree_identical_areas\<close>) unless their interval is the whole range of \<open>int\<close>
  at every dimension: there \<open>right + 1\<close> wraps to the least \<open>int\<close>, every area
  contains that threshold, the guard against the degenerate split does not fire, and the
  node keeps a valid decision.
\<close>

theorem BuildTree_full_range_keeps_decision:
  "BuildTree 1 full_range_areas
     = Inr (DecisionTreeNode full_range_areas None None
              \<lparr>dimension_index = 0, ref_value = - 2147483648\<rparr>)
   \<and> IsValid \<lparr>dimension_index = 0, ref_value = - 2147483648\<rparr> = Inr True"
proof -
  have "BuildTree 1 full_range_areas
     = Inr (DecisionTreeNode full_range_areas None None
              \<lparr>dimension_index = 0, ref_value = - 2147483648\<rparr>)"
    by code_simp
  moreover have "IsValid \<lparr>dimension_index = 0, ref_value = - 2147483648\<rparr> = Inr True"
    by (simp add: IsValid_def)
  ultimately show ?thesis by simp
qed

section \<open>Scenario 3\<close>

lemma scenario3_BuildTree:
  "BuildTree 1 scenario3_areas
     = Inr (DecisionTreeNode [[\<lparr>left = 6, right = 10\<rparr>]]
              (Some (DecisionTreeNode [[\<lparr>left = 0, right = 5\<rparr>]] None None no_decision))
              None \<lparr>dimension_index = 0, ref_value = 6\<rparr>)"
  by code_simp

text \<open>
  C6, as stated: the root of the tree built for the areas [0,5] and [6,10] does not have
  an empty bucket, and it has no right child: the threshold is 5 + 1 = 6, which the
  area [6,10] contains.
\<close>

theorem scenario3_not_separated:
  "map_sum id areas_to_check (BuildTree 1 scenario3_areas) \<noteq> Inr []
   \<and> map_sum id areas_to_check (BuildTree 1 scenario3_areas)
       = Inr [[\<lparr>left = 6, right = 10\<rparr>]]
   \<and> map_sum id right_child (BuildTree 1 scenario3_areas) = Inr None"
  by (simp add: scenario3_BuildTree)

text \<open>
  C6, amended: with dimension 1, after inserting [0,5] and [6,10], the root of the built
  tree has the decision of dimension 0 and threshold 6, its bucket holds [6,10], its left
  child is a leaf holding [0,5] and it has no right child; \<open>ContainsPoint\<close> is true on
  [5] and on [6] and false on [100].
\<close>

theorem scenario3_tree_and_queries:
  "AddArea (new_DecisionTree 1) [\<lparr>left = 0, right = 5\<rparr>]
     = Inr \<lparr>dimension = 1, dirty = True, root = None, areas = [[\<lparr>left = 0, right = 5\<rparr>]]\<rparr>
   \<and> AddArea \<lparr>dimension = 1, dirty = True, root = None, areas = [[\<lparr>left = 0, right = 5\<rparr>]]\<rparr>
         [\<lparr>left = 6, right = 10\<rparr>]
     = Inr scenario3_index
   \<and> BuildTree (dimension scenario3_index) (areas scenario3_index)
     = Inr (DecisionTreeNode [[\<lparr>left = 6, right = 10\<rparr>]]
              (Some (DecisionTreeNode [[\<lparr>left = 0, right = 5\<rparr>]] None None no_decision))
              None \<lparr>dimension_index = 0, ref_value = 6\<rparr>)
   \<and> map_sum id fst (ContainsPoint scenario3_index [5]) = Inr True
   \<and> map_sum id fst (ContainsPoint scenario3_index [6]) = Inr True
   \<and> map_sum id fst (ContainsPoint scenario3_index [100]) = Inr False"
proof -
  have b: "BuildTree (dimension scenario3_index) (areas scenario3_index)
     = Inr (DecisionTreeNode [[\<lparr>left = 6, right = 10\<rparr>]]
              (Some (DecisionTreeNode [[\<lparr>left = 0, right = 5\<rparr>]] None None no_decision))
              None \<lparr>dimension_index = 0, ref_value = 6\<rparr>)"
    using scenario3_BuildTree by (simp add: scenario3_index_def)
  have q5: "map_sum id fst (ContainsPoint scenario3_index [5]) = Inr True"
    by code_simp
  have q6: "map_sum id fst (ContainsPoint scenario3_index [6]) = Inr True"
    by code_simp
  have q100: "map_sum id fst (ContainsPoint scenario3_index [100]) = Inr False"
    by code_simp
  from scenario3_inserted b q5 q6 q100 show ?thesis by (intro conjI) simp_all
qed

section \<open>The dirty flag\<close>

lemma AddArea_sets_dirty: "AddArea t area = Inr t' \<Longrightarrow> dirty t'"
  by (auto simp: AddArea_def split: if_splits)

lemma RebuildTreeIfDirty_clears_dirty: "RebuildTreeIfDirty t = Inr t' \<Longrightarrow> \<not> dirty t'"
  by (auto simp: RebuildTreeIfDirty_def split: if_splits sum.splits)

lemma ContainsPoint_clears_dirty: "ContainsPoint t p = Inr (b, t') \<Longrightarrow> \<not> dirty t'"
  by (auto simp: ContainsPoint_def dest: RebuildTreeIfDirty_clears_dirty
      split: if_splits sum.splits option.splits)

lemma RebuildTree_keeps_dirty: "RebuildTree t = Inr t' \<Longrightarrow> dirty t' = dirty t"
  by (auto simp: RebuildTree_def split: sum.splits)

text \<open>
  C7. \<open>AddArea\<close> sets the flag and \<open>RebuildTreeIfDirty\<close> clears it after its
  rebuild, but the explicit \<open>RebuildTree\<close> does not touch it: after one insertion and a
  completed \<open>RebuildTree\<close> the index is still dirty, so the next query builds the
  tree a second time.
\<close>

theorem RebuildTree_leaves_index_dirty:
  "AddArea (new_DecisionTree 1) [\<lparr>left = 0, right = 5\<rparr>]
     = Inr \<lparr>dimension = 1, dirty = True, root = None, areas = [[\<lparr>left = 0, right = 5\<rparr>]]\<rparr>
   \<and> RebuildTree
       \<lparr>dimension = 1, dirty = True, root = None, areas = [[\<lparr>left = 0, right = 5\<rparr>]]\<rparr>
     = Inr \<lparr>dimension = 1, dirty = True,
            root = Some (DecisionTreeNode [[\<lparr>left = 0, right = 5\<rparr>]] None None no_decision),
            areas = [[\<lparr>left = 0, right = 5\<rparr>]]\<rparr>"
  by (simp add: AddArea_def new_DecisionTree_def RebuildTree_def BuildTree_single)

end
